theory Spec2Isabelle
  imports Main "HOL-Library.Product_Lexorder"
begin

section \<open>Errors and return values\<close>

text \<open>
  The exceptions the modelled code can raise. A function that may raise returns
  \<open>error + 'a\<close>, with \<open>Inl\<close> for the exception. The methods of StenoDictionary raise
  before they have mutated anything, so after \<open>Inl\<close> the caller's object is the one it
  passed in.
\<close>

datatype error = AssertionError | KeyError | IndexError

text \<open>
  \<open>setdefault\<close>, \<open>pop\<close> and \<open>popitem\<close> execute \<^verbatim>\<open>return NotImplementedError\<close>: the
  exception class is handed back as an ordinary value.
\<close>

datatype py_object = NotImplementedError_class

section \<open>StenoDictionary (plover/steno_dictionary.py)\<close>

text \<open>
  The object is a Python \<open>dict\<close> (the forward mapping) with attributes. \<open>filters\<close> is
  documented as unused and is left out.
\<close>

record ('k, 'v) StenoDictionary =
  forward :: "'k \<rightharpoonup> 'v"
  reverse :: "'v \<rightharpoonup> 'k set"
  timestamp :: int
  readonly :: bool
  enabled :: bool
  path :: "string option"

subsection \<open>The reverse dictionary\<close>

text \<open>
  Modelled from the spec: the class \<^verbatim>\<open>ReverseStenoDict\<close> is imported from
  \<^verbatim>\<open>plover.dictionary.base\<close> but its definition is not part of the sources at hand.
  The specification describes it as the reverse index, a mapping from a translation to the
  set of stroke-sequence keys that produce it. \<open>append_key r v k\<close> adds \<open>k\<close> to the set
  kept for \<open>v\<close>.
\<close>

definition append_key :: "('v \<rightharpoonup> 'k set) \<Rightarrow> 'v \<Rightarrow> 'k \<Rightarrow> ('v \<rightharpoonup> 'k set)" where
  "append_key r v k = r(v \<mapsto> insert k (case r v of None \<Rightarrow> {} | Some ks \<Rightarrow> ks))"

text \<open>
  Modelled from the spec: \<^verbatim>\<open>ReverseStenoDict.remove_key\<close> is absent as well. The
  specification says that deleting or reassigning a key removes the pair (value, key)
  from the reverse index; \<open>remove_key r v k\<close> takes \<open>k\<close> out of the set kept for \<open>v\<close>.
\<close>

definition remove_key :: "('v \<rightharpoonup> 'k set) \<Rightarrow> 'v \<Rightarrow> 'k \<Rightarrow> ('v \<rightharpoonup> 'k set)" where
  "remove_key r v k = (case r v of None \<Rightarrow> r | Some ks \<Rightarrow> r(v \<mapsto> ks - {k}))"

text \<open>
  Modelled from the spec: \<^verbatim>\<open>ReverseStenoDict.match_forward\<close> is absent. The
  specification says that the fast path of a bulk update rebuilds the reverse index
  wholesale from the forward mapping; the forward mapping is passed as its item list.
\<close>

definition match_forward :: "('k \<times> 'v) list \<Rightarrow> ('v \<rightharpoonup> 'k set)" where
  "match_forward items = fold (\<lambda>(k, v) r. append_key r v k) items Map.empty"

subsection \<open>Construction and mutation\<close>

definition StenoDictionary_init :: "('k, 'v) StenoDictionary" where
  "StenoDictionary_init =
     \<lparr>forward = Map.empty, reverse = Map.empty, timestamp = 0, readonly = False,
      enabled = True, path = None\<rparr>"

text \<open>\<^verbatim>\<open>clear\<close> empties the dictionary and its reverse index; it has no assertion.\<close>

definition clear :: "('k, 'v) StenoDictionary \<Rightarrow> error + ('k, 'v) StenoDictionary" where
  "clear d = Inr (d\<lparr>forward := Map.empty, reverse := Map.empty\<rparr>)"

definition setitem ::
  "('k, 'v) StenoDictionary \<Rightarrow> 'k \<Rightarrow> 'v \<Rightarrow> error + ('k, 'v) StenoDictionary" where
  "setitem d key val =
     (if readonly d then Inl AssertionError
      else
        let r = (case forward d key of
                   Some old \<Rightarrow> remove_key (reverse d) old key
                 | None \<Rightarrow> reverse d)
        in Inr (d\<lparr>forward := (forward d)(key \<mapsto> val), reverse := append_key r val key\<rparr>))"

text \<open>\<^verbatim>\<open>super().pop(key)\<close> is \<open>dict.pop\<close>, which raises \<open>KeyError\<close> on an absent key.\<close>

definition delitem ::
  "('k, 'v) StenoDictionary \<Rightarrow> 'k \<Rightarrow> error + ('k, 'v) StenoDictionary" where
  "delitem d key =
     (if readonly d then Inl AssertionError
      else
        case forward d key of
          None \<Rightarrow> Inl KeyError
        | Some val \<Rightarrow>
            Inr (d\<lparr>forward := (forward d)(key := None),
                   reverse := remove_key (reverse d) val key\<rparr>))"

text \<open>
  \<^verbatim>\<open>dict(pairs)\<close>: a later pair for the same key overwrites the value, and the key
  keeps the position of its first occurrence.
\<close>

definition dict_of :: "('k \<times> 'v) list \<Rightarrow> ('k \<rightharpoonup> 'v)" where
  "dict_of kvs = fold (\<lambda>(k, v) m. m(k \<mapsto> v)) kvs Map.empty"

definition dict_items :: "('k \<times> 'v) list \<Rightarrow> ('k \<times> 'v) list" where
  "dict_items kvs =
     concat (map (\<lambda>k. case dict_of kvs k of None \<Rightarrow> [] | Some v \<Rightarrow> [(k, v)])
                 (rev (remdups (rev (map fst kvs)))))"

fun setitems ::
  "('k, 'v) StenoDictionary \<Rightarrow> ('k \<times> 'v) list \<Rightarrow> error + ('k, 'v) StenoDictionary" where
  "setitems d [] = Inr d"
| "setitems d ((k, v) # kvs) =
     (case setitem d k v of Inl e \<Rightarrow> Inl e | Inr d' \<Rightarrow> setitems d' kvs)"

definition update ::
  "('k, 'v) StenoDictionary \<Rightarrow> ('k \<times> 'v) list \<Rightarrow> error + ('k, 'v) StenoDictionary" where
  "update d kvs =
     (if readonly d then Inl AssertionError
      else if forward d = Map.empty then
        Inr (d\<lparr>forward := dict_of kvs, reverse := match_forward (dict_items kvs)\<rparr>)
      else setitems d (dict_items kvs))"

definition reverse_lookup :: "('k, 'v) StenoDictionary \<Rightarrow> 'v \<Rightarrow> 'k set" where
  "reverse_lookup d val = (case reverse d val of Some ks \<Rightarrow> ks | None \<Rightarrow> {})"

definition setdefault ::
  "('k, 'v) StenoDictionary \<Rightarrow> 'k \<Rightarrow> 'v option \<Rightarrow> error + (py_object \<times> ('k, 'v) StenoDictionary)"
  where "setdefault d k dflt = Inr (NotImplementedError_class, d)"

definition pop ::
  "('k, 'v) StenoDictionary \<Rightarrow> 'k \<Rightarrow> error + (py_object \<times> ('k, 'v) StenoDictionary)" where
  "pop d k = Inr (NotImplementedError_class, d)"

definition popitem ::
  "('k, 'v) StenoDictionary \<Rightarrow> error + (py_object \<times> ('k, 'v) StenoDictionary)" where
  "popitem d = Inr (NotImplementedError_class, d)"

subsection \<open>Sequences of mutations\<close>

datatype ('k, 'v) dict_op = SetItem 'k 'v | DelItem 'k

fun apply_op ::
  "('k, 'v) StenoDictionary \<Rightarrow> ('k, 'v) dict_op \<Rightarrow> error + ('k, 'v) StenoDictionary" where
  "apply_op d (SetItem k v) = setitem d k v"
| "apply_op d (DelItem k) = delitem d k"

text \<open>
  An operation that raises has not touched the dictionary, so the interleaving goes on
  with the same object.
\<close>

fun run_ops :: "('k, 'v) StenoDictionary \<Rightarrow> ('k, 'v) dict_op list \<Rightarrow> ('k, 'v) StenoDictionary"
  where
  "run_ops d [] = d"
| "run_ops d (x # xs) =
     (case apply_op d x of Inl e \<Rightarrow> run_ops d xs | Inr d' \<Rightarrow> run_ops d' xs)"

section \<open>StenoDictionaryCollection (plover/steno_dictionary.py)\<close>

text \<open>
  \<open>dicts\<close> is ordered by priority, index 0 first. A filter is a predicate on a key and
  its value.
\<close>

record ('k, 'v) StenoDictionaryCollection =
  dicts :: "('k, 'v) StenoDictionary list"
  filters :: "('k \<Rightarrow> 'v \<Rightarrow> bool) list"

subsection \<open>Forward lookup\<close>

text \<open>The inner loop of \<open>lookup\<close>: the first filter that holds ends the call with \<open>None\<close>.\<close>

fun apply_filters :: "('k \<Rightarrow> 'v \<Rightarrow> bool) list \<Rightarrow> 'k \<Rightarrow> 'v \<Rightarrow> 'v option" where
  "apply_filters [] key val = Some val"
| "apply_filters (f # fs) key val = (if f key val then None else apply_filters fs key val)"

fun lookup_loop ::
  "('k, 'v) StenoDictionary list \<Rightarrow> ('k \<Rightarrow> 'v \<Rightarrow> bool) list \<Rightarrow> 'k \<Rightarrow> 'v option" where
  "lookup_loop [] fs key = None"
| "lookup_loop (d # ds) fs key =
     (if enabled d \<and> key \<in> dom (forward d)
      then apply_filters fs key (the (forward d key))
      else lookup_loop ds fs key)"

definition lookup :: "('k, 'v) StenoDictionaryCollection \<Rightarrow> 'k \<Rightarrow> 'v option" where
  "lookup c key = lookup_loop (dicts c) (filters c) key"

fun raw_lookup_loop :: "('k, 'v) StenoDictionary list \<Rightarrow> 'k \<Rightarrow> 'v option" where
  "raw_lookup_loop [] key = None"
| "raw_lookup_loop (d # ds) key =
     (if enabled d \<and> key \<in> dom (forward d) then forward d key else raw_lookup_loop ds key)"

definition raw_lookup :: "('k, 'v) StenoDictionaryCollection \<Rightarrow> 'k \<Rightarrow> 'v option" where
  "raw_lookup c key = raw_lookup_loop (dicts c) key"

subsection \<open>Reverse lookup\<close>

text \<open>
  The body of the loop of \<open>StenoDictionaryCollection.reverse_lookup\<close>, for the dictionary
  \<open>d\<close> and the keys gathered from the dictionaries of lower priority.
\<close>

definition reverse_lookup_step ::
  "'v \<Rightarrow> 'k set \<Rightarrow> ('k, 'v) StenoDictionary \<Rightarrow> 'k set" where
  "reverse_lookup_step val keys d =
     (if enabled d then
        (let keys' = (if keys \<noteq> {}
                      then keys - Set.filter (\<lambda>k. k \<in> dom (forward d)) keys
                      else keys)
         in keys' \<union> reverse_lookup d val)
      else keys)"

definition coll_reverse_lookup :: "('k, 'v) StenoDictionaryCollection \<Rightarrow> 'v \<Rightarrow> 'k set" where
  "coll_reverse_lookup c val = foldl (reverse_lookup_step val) {} (rev (dicts c))"

subsection \<open>Searches\<close>

text \<open>
  The loop of \<open>_multi_reverse_lookup\<close> over the sorted values. \<open>old_v\<close> starts as \<open>None\<close>.
  The test \<^verbatim>\<open>v is not old_v\<close> compares object identity, which a HOL value does not
  have: the comparison is the parameter \<open>same\<close> (equal strings that come from different
  dictionaries need not be the same object).
\<close>

fun multi_loop ::
  "('v \<Rightarrow> 'v \<Rightarrow> bool) \<Rightarrow> ('k, 'v) StenoDictionaryCollection \<Rightarrow> int option \<Rightarrow> 'v list \<Rightarrow>
   'v option \<Rightarrow> ('v \<times> 'k set) list \<Rightarrow> ('v \<times> 'k set) list" where
  "multi_loop same c max_count [] old_v results = results"
| "multi_loop same c max_count (v # vs) old_v results =
     (if (case old_v of None \<Rightarrow> True | Some ov \<Rightarrow> \<not> same v ov) then
        (let keys = coll_reverse_lookup c v in
         if keys \<noteq> {} then
           (let results' = results @ [(v, keys)] in
            if (case max_count of None \<Rightarrow> False | Some m \<Rightarrow> m \<le> int (length results'))
            then results'
            else multi_loop same c max_count vs (Some v) results')
         else multi_loop same c max_count vs (Some v) results)
      else multi_loop same c max_count vs old_v results)"

text \<open>
  \<^verbatim>\<open>sorted(values, key=str.lower)\<close> is a stable sort on the lower-cased text; \<open>lower\<close>
  is \<open>str.lower\<close>, into any linear order.
\<close>

definition multi_reverse_lookup ::
  "('v \<Rightarrow> 'v \<Rightarrow> bool) \<Rightarrow> ('v \<Rightarrow> 'o::linorder) \<Rightarrow> ('k, 'v) StenoDictionaryCollection \<Rightarrow>
   'v list \<Rightarrow> int option \<Rightarrow> ('v \<times> 'k set) list" where
  "multi_reverse_lookup same lower c vals max_count =
     multi_loop same c max_count (sort_key lower vals) None []"

text \<open>
  The three searches gather the candidate translations of the enabled dictionaries, in
  priority order. The queries \<open>get_similar_keys\<close>, \<open>partial_match_keys\<close> and
  \<open>regex_match_keys\<close> of the reverse dictionary are bound to each dictionary when it is
  built; the class that provides them on the reverse index is not part of the sources at
  hand, so each is a parameter taking the reverse index.
\<close>

definition find_similar ::
  "('v \<Rightarrow> 'v \<Rightarrow> bool) \<Rightarrow> ('v \<Rightarrow> 'o::linorder) \<Rightarrow> (('v \<rightharpoonup> 'k set) \<Rightarrow> 'v \<Rightarrow> 'v list) \<Rightarrow>
   ('k, 'v) StenoDictionaryCollection \<Rightarrow> 'v \<Rightarrow> ('v \<times> 'k set) list" where
  "find_similar same lower similar_reverse_lookup c val =
     multi_reverse_lookup same lower c
       (concat (map (\<lambda>d. similar_reverse_lookup (reverse d) val) (filter enabled (dicts c))))
       None"

definition find_partial ::
  "('v \<Rightarrow> 'v \<Rightarrow> bool) \<Rightarrow> ('v \<Rightarrow> 'o::linorder) \<Rightarrow>
   (('v \<rightharpoonup> 'k set) \<Rightarrow> 'p \<Rightarrow> int option \<Rightarrow> 'v list) \<Rightarrow>
   ('k, 'v) StenoDictionaryCollection \<Rightarrow> 'p \<Rightarrow> int option \<Rightarrow> ('v \<times> 'k set) list" where
  "find_partial same lower partial_reverse_lookup c pattern count =
     multi_reverse_lookup same lower c
       (concat (map (\<lambda>d. partial_reverse_lookup (reverse d) pattern count)
                    (filter enabled (dicts c))))
       count"

definition find_regex ::
  "('v \<Rightarrow> 'v \<Rightarrow> bool) \<Rightarrow> ('v \<Rightarrow> 'o::linorder) \<Rightarrow>
   (('v \<rightharpoonup> 'k set) \<Rightarrow> 'p \<Rightarrow> int option \<Rightarrow> 'v list) \<Rightarrow>
   ('k, 'v) StenoDictionaryCollection \<Rightarrow> 'p \<Rightarrow> int option \<Rightarrow> ('v \<times> 'k set) list" where
  "find_regex same lower regex_reverse_lookup c pattern count =
     multi_reverse_lookup same lower c
       (concat (map (\<lambda>d. regex_reverse_lookup (reverse d) pattern count)
                    (filter enabled (dicts c))))
       count"

section \<open>SimilarSearchDict (plover/dictionary/base.py)\<close>

text \<open>
  The object is a Python \<open>dict\<close> (\<open>ssd_items\<close>) with the attributes \<open>_list\<close>,
  \<open>_needs_sorting\<close> and \<open>_simfn\<close>. The list holds the pairs (simkey, rawkey); Python
  compares these tuples lexicographically, which is the order on pairs used here.
\<close>

record ('k, 's, 'v) SimilarSearchDict =
  ssd_items :: "'k \<rightharpoonup> 'v"
  ssd_list :: "('s \<times> 'k) list"
  needs_sorting :: bool
  simfn :: "'k \<Rightarrow> 's"

text \<open>
  The constructor with no initial items. When no similarity function is passed the
  source takes the identity, which is the instance \<open>ssd_init (\<lambda>x. x)\<close>.
\<close>

definition ssd_init :: "('k \<Rightarrow> 's) \<Rightarrow> ('k, 's, 'v) SimilarSearchDict" where
  "ssd_init f = \<lparr>ssd_items = Map.empty, ssd_list = [], needs_sorting = False, simfn = f\<rparr>"

definition ssd_clear :: "('k, 's, 'v) SimilarSearchDict \<Rightarrow> ('k, 's, 'v) SimilarSearchDict" where
  "ssd_clear s = s\<lparr>ssd_items := Map.empty, ssd_list := []\<rparr>"

definition ssd_sort ::
  "('k::linorder, 's::linorder, 'v) SimilarSearchDict \<Rightarrow> ('k, 's, 'v) SimilarSearchDict" where
  "ssd_sort s = s\<lparr>ssd_list := sort (ssd_list s), needs_sorting := False\<rparr>"

definition ssd_setitem ::
  "('k, 's, 'v) SimilarSearchDict \<Rightarrow> 'k \<Rightarrow> 'v \<Rightarrow> ('k, 's, 'v) SimilarSearchDict" where
  "ssd_setitem s k v =
     (let s1 = (if k \<notin> dom (ssd_items s)
                then s\<lparr>ssd_list := ssd_list s @ [(simfn s k, k)], needs_sorting := True\<rparr>
                else s)
      in s1\<lparr>ssd_items := (ssd_items s1)(k \<mapsto> v)\<rparr>)"

text \<open>
  \<open>bisect.bisect_left\<close> of the standard library: binary search between \<open>lo\<close> and \<open>hi\<close>.
  \<open>lt e\<close> is the comparison \<^verbatim>\<open>a[mid] < x\<close> of a list element with the searched value.
\<close>

function bisect_loop :: "('a \<Rightarrow> bool) \<Rightarrow> 'a list \<Rightarrow> nat \<Rightarrow> nat \<Rightarrow> nat" where
  "bisect_loop lt a lo hi =
     (if lo < hi then
        (let mid = (lo + hi) div 2 in
         if lt (a ! mid) then bisect_loop lt a (mid + 1) hi else bisect_loop lt a lo mid)
      else lo)"
  by pat_completeness auto
termination
  by (relation "measure (\<lambda>(lt, a, lo, hi). hi - lo)") auto

definition bisect_left :: "('a \<Rightarrow> bool) \<Rightarrow> 'a list \<Rightarrow> nat" where
  "bisect_left lt a = bisect_loop lt a 0 (length a)"

text \<open>
  \<^verbatim>\<open>del self._list[idx]\<close> raises \<open>IndexError\<close> when \<open>idx\<close> is not an index of the
  list (by then the key has left the mapping; the model does not describe the object
  after this exception). Deleting a key that is absent does nothing.
\<close>

definition ssd_delitem ::
  "('k::linorder, 's::linorder, 'v) SimilarSearchDict \<Rightarrow> 'k \<Rightarrow>
   error + ('k, 's, 'v) SimilarSearchDict" where
  "ssd_delitem s k =
     (if k \<in> dom (ssd_items s) then
        (let s1 = s\<lparr>ssd_items := (ssd_items s)(k := None)\<rparr>;
             s2 = (if needs_sorting s1 then ssd_sort s1 else s1);
             idx = bisect_left (\<lambda>e. e < (simfn s2 k, k)) (ssd_list s2)
         in if idx < length (ssd_list s2)
            then Inr (s2\<lparr>ssd_list := take idx (ssd_list s2) @ drop (Suc idx) (ssd_list s2)\<rparr>)
            else Inl IndexError)
      else Inr s)"

text \<open>
  \<open>_index_left\<close> searches for the 1-tuple \<^verbatim>\<open>(simkey,)\<close>. A pair \<open>(sk, rk)\<close> is less than
  that 1-tuple exactly when \<open>sk < simkey\<close>: with equal first components the shorter tuple
  is the smaller one.
\<close>

definition index_left ::
  "('k::linorder, 's::linorder, 'v) SimilarSearchDict \<Rightarrow> 'k \<Rightarrow>
   nat \<times> ('k, 's, 'v) SimilarSearchDict" where
  "index_left s k =
     (let s1 = (if needs_sorting s then ssd_sort s else s)
      in (bisect_left (\<lambda>e. fst e < simfn s1 k) (ssd_list s1), s1))"

function filter_loop ::
  "('s \<times> 'k) list \<Rightarrow> 's \<Rightarrow> int option \<Rightarrow> ('s \<Rightarrow> 's \<Rightarrow> bool) option \<Rightarrow> nat \<Rightarrow> 'k list \<Rightarrow>
   'k list" where
  "filter_loop l simkey count filterfn idx keys =
     (if idx < length l then
        (case l ! idx of (sk, rk) \<Rightarrow>
           if (case filterfn of None \<Rightarrow> False | Some f \<Rightarrow> \<not> f sk simkey) then keys
           else
             (let keys' = keys @ [rk] in
              if (case count of None \<Rightarrow> False | Some n \<Rightarrow> n \<le> int (length keys'))
              then keys'
              else filter_loop l simkey count filterfn (idx + 1) keys'))
      else keys)"
  by pat_completeness auto
termination
  by (relation "measure (\<lambda>(l, simkey, count, filterfn, idx, keys). length l - idx)") auto

text \<open>
  \<open>filter_keys\<close> may sort the list, so it returns the object along with the keys.
\<close>

definition filter_keys ::
  "('k::linorder, 's::linorder, 'v) SimilarSearchDict \<Rightarrow> 'k \<Rightarrow> int option \<Rightarrow>
   ('s \<Rightarrow> 's \<Rightarrow> bool) option \<Rightarrow> 'k list \<times> ('k, 's, 'v) SimilarSearchDict" where
  "filter_keys s k count filterfn =
     (let simkey = simfn s k;
          (idx, s1) = index_left s k
      in (filter_loop (ssd_list s1) simkey count filterfn idx [], s1))"

definition get_similar_keys ::
  "('k::linorder, 's::linorder, 'v) SimilarSearchDict \<Rightarrow> 'k \<Rightarrow> int option \<Rightarrow>
   'k list \<times> ('k, 's, 'v) SimilarSearchDict" where
  "get_similar_keys s k count = filter_keys s k count (Some (=))"

definition ssd_setdefault ::
  "('k, 's, 'v) SimilarSearchDict \<Rightarrow> 'k \<Rightarrow> 'v option \<Rightarrow>
   error + (py_object \<times> ('k, 's, 'v) SimilarSearchDict)" where
  "ssd_setdefault s k dflt = Inr (NotImplementedError_class, s)"

definition ssd_pop ::
  "('k, 's, 'v) SimilarSearchDict \<Rightarrow> 'k \<Rightarrow>
   error + (py_object \<times> ('k, 's, 'v) SimilarSearchDict)" where
  "ssd_pop s k = Inr (NotImplementedError_class, s)"

definition ssd_popitem ::
  "('k, 's, 'v) SimilarSearchDict \<Rightarrow> error + (py_object \<times> ('k, 's, 'v) SimilarSearchDict)"
  where "ssd_popitem s = Inr (NotImplementedError_class, s)"

subsection \<open>Sequences of insertions and deletions\<close>

datatype ('k, 'v) ssd_op = SsdSet 'k 'v | SsdDel 'k

fun ssd_apply ::
  "('k::linorder, 's::linorder, 'v) SimilarSearchDict \<Rightarrow> ('k, 'v) ssd_op \<Rightarrow>
   error + ('k, 's, 'v) SimilarSearchDict" where
  "ssd_apply s (SsdSet k v) = Inr (ssd_setitem s k v)"
| "ssd_apply s (SsdDel k) = ssd_delitem s k"

fun ssd_run ::
  "('k::linorder, 's::linorder, 'v) SimilarSearchDict \<Rightarrow> ('k, 'v) ssd_op list \<Rightarrow>
   error + ('k, 's, 'v) SimilarSearchDict" where
  "ssd_run s [] = Inr s"
| "ssd_run s (x # xs) = (case ssd_apply s x of Inl e \<Rightarrow> Inl e | Inr s' \<Rightarrow> ssd_run s' xs)"

section \<open>Stroke normalisation (plover/steno.py)\<close>

text \<open>
  The module \<open>plover.system\<close> is filled in at run time from the keyboard layout in use.
  \<open>normalize_stroke\<close> reads two of its attributes, which are parameters here.
\<close>

record system =
  NUMBER_KEY :: string
  IMPLICIT_HYPHENS :: "string set"

definition NUMBERS :: "char set" where
  "NUMBERS = set ''0123456789''"

text \<open>
  \<^verbatim>\<open>s.replace(old, '')\<close>: the occurrences of \<open>old\<close> are removed from left to right,
  without overlap; an empty \<open>old\<close> leaves the string as it is.
\<close>

function str_remove :: "string \<Rightarrow> string \<Rightarrow> string" where
  "str_remove old [] = []"
| "str_remove old (c # cs) =
     (if old \<noteq> [] \<and> take (length old) (c # cs) = old
      then str_remove old (drop (length old) (c # cs))
      else c # str_remove old cs)"
  by pat_completeness auto
termination
  by (relation "measure (\<lambda>(old, s). length s)") auto

text \<open>
  The search of \<^verbatim>\<open>(^|[1-4])([6-9])\<close>, giving \<open>m.start(2)\<close>. \<open>rx_pair\<close> finds the
  leftmost character of \<open>1\<close> to \<open>4\<close> that is followed by one of \<open>6\<close> to \<open>9\<close> and gives
  the position of the latter; \<open>^\<close> matches at the start of the string only, where it is
  tried first.
\<close>

fun rx_pair :: "string \<Rightarrow> nat option" where
  "rx_pair (a # b # cs) =
     (if a \<in> set ''1234'' \<and> b \<in> set ''6789'' then Some 1
      else map_option Suc (rx_pair (b # cs)))"
| "rx_pair cs = None"

definition IMPLICIT_NUMBER_RX_search :: "string \<Rightarrow> nat option" where
  "IMPLICIT_NUMBER_RX_search stroke =
     (case stroke of
        [] \<Rightarrow> None
      | c # cs \<Rightarrow> if c \<in> set ''6789'' then Some 0 else rx_pair stroke)"

text \<open>
  The second \<open>if\<close> of \<open>normalize_stroke\<close>, reached when the first one does not return.
  \<open>letters\<close> is the set computed from the stroke as it was passed in.
\<close>

definition normalize_hyphen :: "system \<Rightarrow> char set \<Rightarrow> string \<Rightarrow> string" where
  "normalize_hyphen sys letters stroke =
     (if CHR ''-'' \<in> letters then
        (if stroke \<noteq> [] \<and> last stroke = CHR ''-'' then butlast stroke
         else if (\<exists>c \<in> letters. [c] \<in> IMPLICIT_HYPHENS sys) then str_remove ''-'' stroke
         else stroke)
      else stroke)"

definition normalize_stroke :: "system \<Rightarrow> string \<Rightarrow> string" where
  "normalize_stroke sys stroke =
     (let letters = set stroke in
      if letters \<inter> NUMBERS \<noteq> {} then
        (let stroke1 = (if (\<exists>c \<in> letters. [c] = NUMBER_KEY sys)
                        then str_remove (NUMBER_KEY sys) stroke
                        else stroke)
         in case IMPLICIT_NUMBER_RX_search stroke1 of
              Some start \<Rightarrow> take start stroke1 @ ''-'' @ drop start stroke1
            | None \<Rightarrow> normalize_hyphen sys letters stroke1)
      else normalize_hyphen sys letters stroke)"

section \<open>Invariants and specifications used in the proofs\<close>

text \<open>The reverse index of a StenoDictionary is the inverse of its forward mapping.\<close>

definition rev_exact :: "('k, 'v) StenoDictionary \<Rightarrow> bool" where
  "rev_exact d = (\<forall>v. reverse_lookup d v = {k. forward d k = Some v})"

text \<open>
  What \<open>bisect_left\<close> promises on a list where the elements below the searched value
  come first: the result \<open>r\<close> splits the list into the elements below and the rest.
\<close>

definition bisect_post :: "('a \<Rightarrow> bool) \<Rightarrow> 'a list \<Rightarrow> nat \<Rightarrow> bool" where
  "bisect_post lt a r =
     (r \<le> length a \<and> (\<forall>i<r. lt (a ! i)) \<and> (\<forall>i. r \<le> i \<and> i < length a \<longrightarrow> \<not> lt (a ! i)))"

text \<open>
  The list of a SimilarSearchDict holds each present key once, paired with its image
  under the similarity function, and is sorted unless the flag says otherwise.
\<close>

definition ssd_inv :: "('k::linorder, 's::linorder, 'v) SimilarSearchDict \<Rightarrow> bool" where
  "ssd_inv s =
     (distinct (ssd_list s)
      \<and> set (ssd_list s) = (\<lambda>k. (simfn s k, k)) ` dom (ssd_items s)
      \<and> (needs_sorting s \<or> sorted (ssd_list s)))"

text \<open>
  A collection of two enabled dictionaries: the first maps \<open>KAT\<close> to "cat", the second
  maps \<open>KAT\<close> to "dog" and \<open>KAT/-S\<close> to "cat".
\<close>

definition example_collection :: "(string list, string) StenoDictionaryCollection" where
  "example_collection =
     \<lparr>dicts = [run_ops StenoDictionary_init [SetItem [''KAT''] ''cat''],
               run_ops StenoDictionary_init
                 [SetItem [''KAT''] ''dog'', SetItem [''KAT'', ''-S''] ''cat'']],
      filters = []\<rparr>"

text \<open>
  A layout for the examples: the number key is \<open>#\<close>, and the letters that make a
  hyphen implicit are the vowels, the star and the digits 5 and 0.
\<close>

definition example_system :: system where
  "example_system =
     \<lparr>NUMBER_KEY = ''#'',
      IMPLICIT_HYPHENS = {''A'', ''O'', ''5'', ''0'', ''E'', ''U'', ''*''}\<rparr>"

declare bisect_loop.simps [simp del]
declare filter_loop.simps [simp del]

section \<open>The reverse index is the inverse of the forward mapping\<close>

lemma rev_exact_init: "rev_exact StenoDictionary_init"
  by (simp add: rev_exact_def reverse_lookup_def StenoDictionary_init_def)

lemma reverse_lookup_append_key:
  "(case append_key r v k w of Some ks \<Rightarrow> ks | None \<Rightarrow> {}) =
     (if w = v then insert k (case r v of Some ks \<Rightarrow> ks | None \<Rightarrow> {})
      else (case r w of Some ks \<Rightarrow> ks | None \<Rightarrow> {}))"
  by (simp add: append_key_def split: option.splits)

lemma reverse_lookup_remove_key:
  "(case remove_key r v k w of Some ks \<Rightarrow> ks | None \<Rightarrow> {}) =
     (if w = v then (case r v of Some ks \<Rightarrow> ks | None \<Rightarrow> {}) - {k}
      else (case r w of Some ks \<Rightarrow> ks | None \<Rightarrow> {}))"
  by (simp add: remove_key_def split: option.splits)

lemma rev_exact_setitem:
  assumes "rev_exact d" and "setitem d k v = Inr d'"
  shows "rev_exact d'"
proof -
  from assms(2) have ro: "\<not> readonly d"
    by (auto simp: setitem_def split: if_splits)
  have inv: "\<And>w. (case reverse d w of Some ks \<Rightarrow> ks | None \<Rightarrow> {}) = {x. forward d x = Some w}"
    using assms(1) by (simp add: rev_exact_def reverse_lookup_def)
  show ?thesis
  proof (cases "forward d k")
    case None
    with assms(2) ro have d': "d' = d\<lparr>forward := (forward d)(k \<mapsto> v),
        reverse := append_key (reverse d) v k\<rparr>"
      by (simp add: setitem_def)
    show ?thesis
      unfolding rev_exact_def reverse_lookup_def d'
      using None by (auto simp: reverse_lookup_append_key inv)
  next
    case (Some old)
    with assms(2) ro have d': "d' = d\<lparr>forward := (forward d)(k \<mapsto> v),
        reverse := append_key (remove_key (reverse d) old k) v k\<rparr>"
      by (simp add: setitem_def)
    show ?thesis
      unfolding rev_exact_def reverse_lookup_def d'
      using Some by (auto simp: reverse_lookup_append_key reverse_lookup_remove_key inv)
  qed
qed

lemma rev_exact_delitem:
  assumes "rev_exact d" and "delitem d k = Inr d'"
  shows "rev_exact d'"
proof -
  have inv: "\<And>w. (case reverse d w of Some ks \<Rightarrow> ks | None \<Rightarrow> {}) = {x. forward d x = Some w}"
    using assms(1) by (simp add: rev_exact_def reverse_lookup_def)
  from assms(2) obtain old where old: "forward d k = Some old"
    and d': "d' = d\<lparr>forward := (forward d)(k := None),
        reverse := remove_key (reverse d) old k\<rparr>"
    by (auto simp: delitem_def split: if_splits option.splits)
  show ?thesis
    unfolding rev_exact_def reverse_lookup_def d'
    using old by (auto simp: reverse_lookup_remove_key inv)
qed

lemma rev_exact_apply_op: "rev_exact d \<Longrightarrow> apply_op d x = Inr d' \<Longrightarrow> rev_exact d'"
  by (cases x) (auto intro: rev_exact_setitem rev_exact_delitem)

lemma rev_exact_run_ops: "rev_exact d \<Longrightarrow> rev_exact (run_ops d xs)"
proof (induction xs arbitrary: d)
  case Nil
  then show ?case by simp
next
  case (Cons x xs)
  show ?case
  proof (cases "apply_op d x")
    case (Inl e)
    with Cons show ?thesis by simp
  next
    case (Inr d')
    with Cons.prems have "rev_exact d'" by (rule_tac rev_exact_apply_op)
    with Cons.IH Inr show ?thesis by simp
  qed
qed

text \<open>
  C1. Starting from an empty StenoDictionary, after any finite interleaving of
  \<open>__setitem__\<close> and \<open>__delitem__\<close> the keys the reverse index gives for a value \<open>v\<close>
  are exactly the keys the forward mapping sends to \<open>v\<close>: nothing is missing and nothing
  stale is left behind by a removal or a reassignment.
\<close>

theorem C1_reverse_index_exact:
  "reverse_lookup (run_ops StenoDictionary_init ops) v =
     {k. forward (run_ops StenoDictionary_init ops) k = Some v}"
  using rev_exact_run_ops [OF rev_exact_init, of ops] by (simp add: rev_exact_def)

section \<open>Lookups in a collection\<close>

lemma lookup_loop_skip:
  "\<forall>p \<in> set pre. \<not> (enabled p \<and> key \<in> dom (forward p)) \<Longrightarrow>
   lookup_loop (pre @ ds) fs key = lookup_loop ds fs key"
  by (induction pre) auto

lemma apply_filters_hit: "f \<in> set fs \<Longrightarrow> f key val \<Longrightarrow> apply_filters fs key val = None"
  by (induction fs) auto

text \<open>
  C5. When the first enabled member that contains the key holds a value on which some
  registered filter is true, \<open>lookup\<close> answers \<open>None\<close>, whatever the members of lower
  priority (\<open>rest\<close>) contain: the filtered hit masks the key.
\<close>

theorem C5_filtered_hit_masks:
  assumes "\<forall>p \<in> set pre. \<not> (enabled p \<and> key \<in> dom (forward p))"
    and "enabled d" and "forward d key = Some val"
    and "f \<in> set fs" and "f key val"
  shows "lookup \<lparr>dicts = pre @ d # rest, filters = fs\<rparr> key = None"
proof -
  have "lookup_loop (pre @ d # rest) fs key = lookup_loop (d # rest) fs key"
    using assms(1) by (rule lookup_loop_skip)
  also have "\<dots> = apply_filters fs key val"
    using assms(2,3) by (simp add: domI)
  also have "\<dots> = None"
    using assms(4,5) by (rule apply_filters_hit)
  finally show ?thesis by (simp add: lookup_def)
qed

theorem C5_filtered_hit_masks_witness:
  "enabled (run_ops StenoDictionary_init [SetItem (1::nat) ''bad''])
   \<and> forward (run_ops StenoDictionary_init [SetItem (1::nat) ''bad'']) 1 = Some ''bad''
   \<and> (\<lambda>k v. v = ''bad'') \<in> set [\<lambda>(k::nat) v. v = ''bad'']
   \<and> lookup \<lparr>dicts = [run_ops StenoDictionary_init [SetItem (1::nat) ''good'']],
              filters = [\<lambda>(k::nat) v. v = ''bad'']\<rparr> 1 = Some ''good''
   \<and> lookup \<lparr>dicts = [] @ run_ops StenoDictionary_init [SetItem (1::nat) ''bad'']
                       # [run_ops StenoDictionary_init [SetItem 1 ''good'']],
              filters = [\<lambda>k v. v = ''bad'']\<rparr> 1 = None"
  using C5_filtered_hit_masks [of "[]" "1::nat"
      "run_ops StenoDictionary_init [SetItem (1::nat) ''bad'']" "''bad''"
      "\<lambda>k v. v = ''bad''" "[\<lambda>k v. v = ''bad'']"
      "[run_ops StenoDictionary_init [SetItem 1 ''good'']]"]
  by (simp add: setitem_def StenoDictionary_init_def lookup_def)

lemmas coll_eval_defs =
  coll_reverse_lookup_def reverse_lookup_step_def reverse_lookup_def setitem_def
  StenoDictionary_init_def append_key_def remove_key_def

section \<open>Reverse lookup under precedence\<close>

lemma reverse_lookup_step_exact:
  assumes "rev_exact d"
  shows "reverse_lookup_step v keys d =
     (if enabled d then (keys - dom (forward d)) \<union> {k. forward d k = Some v} else keys)"
  using assms by (auto simp: reverse_lookup_step_def rev_exact_def)

lemma reverse_lookup_fold:
  assumes "\<forall>d \<in> set ds. rev_exact d"
  shows "foldl (reverse_lookup_step v) {} (rev ds) =
     {k. \<exists>i<length ds. enabled (ds ! i) \<and> forward (ds ! i) k = Some v \<and>
           (\<forall>j<i. enabled (ds ! j) \<longrightarrow> forward (ds ! j) k = None)}"
  using assms
proof (induction ds)
  case Nil
  then show ?case by simp
next
  case (Cons d ds)
  then have IH: "foldl (reverse_lookup_step v) {} (rev ds) =
     {k. \<exists>i<length ds. enabled (ds ! i) \<and> forward (ds ! i) k = Some v \<and>
           (\<forall>j<i. enabled (ds ! j) \<longrightarrow> forward (ds ! j) k = None)}" by simp
  from Cons.prems have d: "rev_exact d" by simp
  show ?case
    by (auto simp add: reverse_lookup_step_exact [OF d] IH Ex_less_Suc2 All_less_Suc2 domIff)
qed

text \<open>
  C2. In a collection whose members keep their reverse index exact (as every
  StenoDictionary does), \<open>reverse_lookup(v)\<close> is the set of the keys \<open>k\<close> for which some
  enabled member maps \<open>k\<close> to \<open>v\<close> while no enabled member of strictly higher priority
  (a smaller index in \<open>dicts\<close>) has \<open>k\<close> as a key at all.
\<close>

theorem C2_reverse_lookup_precedence:
  assumes "\<forall>d \<in> set (dicts c). rev_exact d"
  shows "coll_reverse_lookup c v =
     {k. \<exists>i<length (dicts c). enabled (dicts c ! i) \<and> forward (dicts c ! i) k = Some v \<and>
           (\<forall>j<i. enabled (dicts c ! j) \<longrightarrow> forward (dicts c ! j) k = None)}"
  unfolding coll_reverse_lookup_def using assms by (rule reverse_lookup_fold)

theorem C2_reverse_lookup_precedence_witness:
  "rev_exact (dicts example_collection ! 0) \<and> rev_exact (dicts example_collection ! 1)
   \<and> coll_reverse_lookup example_collection ''cat'' =
       {k. \<exists>i<length (dicts example_collection).
             enabled (dicts example_collection ! i)
             \<and> forward (dicts example_collection ! i) k = Some ''cat''
             \<and> (\<forall>j<i. enabled (dicts example_collection ! j) \<longrightarrow>
                         forward (dicts example_collection ! j) k = None)}"
proof -
  have h: "\<forall>d \<in> set (dicts example_collection). rev_exact d"
    by (simp add: example_collection_def rev_exact_run_ops [OF rev_exact_init]
        del: run_ops.simps)
  have "rev_exact (dicts example_collection ! 0) \<and> rev_exact (dicts example_collection ! 1)"
    using h by (simp add: example_collection_def del: run_ops.simps)
  then show ?thesis
    using C2_reverse_lookup_precedence [OF h, of "''cat''"] by blast
qed

section \<open>The precedence scenario\<close>

text \<open>
  C3, as stated, at the keys \<open>KAT\<close> and \<open>KAT/-S\<close>: member A maps K1 to "cat", member B
  maps K1 to "dog" and K2 to "cat". The result is not \<open>{K2}\<close>.
\<close>

theorem C3_counterexample:
  "coll_reverse_lookup
     \<lparr>dicts = [run_ops StenoDictionary_init [SetItem [''KAT''] ''cat''],
               run_ops StenoDictionary_init
                 [SetItem [''KAT''] ''dog'', SetItem [''KAT'', ''-S''] ''cat'']],
      filters = []\<rparr> ''cat''
   \<noteq> {[''KAT'', ''-S'']}"
  by (simp add: coll_eval_defs)

text \<open>
  C3, amended. For a collection of two enabled dictionaries with exact reverse indexes,
  where member A (priority 0) maps K1 to "cat" and nothing else, and member B
  (priority 1) maps K1 to "dog" and K2 to "cat" and nothing else,
  \<open>reverse_lookup("cat")\<close> is \<open>{K1, K2}\<close>: K1 is in the result because A, the member
  of highest priority, maps it to "cat" itself.
\<close>

theorem C3_precedence_scenario:
  assumes "enabled A" "enabled B" "rev_exact A" "rev_exact B"
    and "forward A = [K1 \<mapsto> ''cat'']"
    and "forward B = [K1 \<mapsto> ''dog'', K2 \<mapsto> ''cat'']"
  shows "coll_reverse_lookup \<lparr>dicts = [A, B], filters = fs\<rparr> ''cat'' = {K1, K2}"
  using assms(1,2,5,6)
  by (auto simp: coll_reverse_lookup_def reverse_lookup_step_exact [OF assms(3)]
      reverse_lookup_step_exact [OF assms(4)] split: if_splits)

theorem C3_precedence_scenario_witness:
  "enabled (dicts example_collection ! 0) \<and> enabled (dicts example_collection ! 1)
   \<and> rev_exact (dicts example_collection ! 0) \<and> rev_exact (dicts example_collection ! 1)
   \<and> forward (dicts example_collection ! 0) = [[''KAT''] \<mapsto> ''cat'']
   \<and> forward (dicts example_collection ! 1)
       = [[''KAT''] \<mapsto> ''dog'', [''KAT'', ''-S''] \<mapsto> ''cat'']
   \<and> coll_reverse_lookup
        \<lparr>dicts = [dicts example_collection ! 0, dicts example_collection ! 1], filters = []\<rparr>
        ''cat'' = {[''KAT''], [''KAT'', ''-S'']}"
proof -
  let ?A = "dicts example_collection ! 0" and ?B = "dicts example_collection ! 1"
  have e: "enabled ?A" "enabled ?B"
    by (simp_all add: example_collection_def setitem_def StenoDictionary_init_def)
  have r: "rev_exact ?A" "rev_exact ?B"
    by (simp_all add: example_collection_def rev_exact_run_ops [OF rev_exact_init]
        del: run_ops.simps)
  have f: "forward ?A = [[''KAT''] \<mapsto> ''cat'']"
    "forward ?B = [[''KAT''] \<mapsto> ''dog'', [''KAT'', ''-S''] \<mapsto> ''cat'']"
    by (simp_all add: example_collection_def setitem_def StenoDictionary_init_def)
  from e r f C3_precedence_scenario [OF e r f] show ?thesis by blast
qed

section \<open>Searches of a collection\<close>

lemma multi_loop_nonempty:
  "\<forall>p \<in> set results. snd p \<noteq> {} \<Longrightarrow>
   \<forall>p \<in> set (multi_loop same c max_count vs old_v results). snd p \<noteq> {}"
proof (induction vs arbitrary: old_v results)
  case Nil
  then show ?case by simp
next
  case (Cons v vs)
  have ext: "coll_reverse_lookup c v \<noteq> {} \<Longrightarrow>
     \<forall>p \<in> set (results @ [(v, coll_reverse_lookup c v)]). snd p \<noteq> {}"
    using Cons.prems by simp
  show ?case
    using Cons.prems Cons.IH [OF ext] Cons.IH [OF Cons.prems] ext
    by (simp add: Let_def)
qed

lemma multi_loop_length:
  "int (length results) < m \<Longrightarrow>
   int (length (multi_loop same c (Some m) vs old_v results)) \<le> m"
proof (induction vs arbitrary: old_v results)
  case Nil
  then show ?case by simp
next
  case (Cons v vs)
  show ?case
    using Cons.prems
    by (auto simp: Let_def intro!: Cons.IH)
qed

text \<open>No pair returned by \<open>_multi_reverse_lookup\<close> has an empty key set.\<close>

lemma multi_reverse_lookup_nonempty:
  "(v, ks) \<in> set (multi_reverse_lookup same lower c vals max_count) \<Longrightarrow> ks \<noteq> {}"
  using multi_loop_nonempty [of "[]" same c max_count "sort_key lower vals" None]
  by (auto simp: multi_reverse_lookup_def)

text \<open>With a count of at least one, at most that many pairs are returned.\<close>

lemma multi_reverse_lookup_length:
  "1 \<le> m \<Longrightarrow> int (length (multi_reverse_lookup same lower c vals (Some m))) \<le> m"
  using multi_loop_length [of "[]" m same c "sort_key lower vals" None]
  by (auto simp: multi_reverse_lookup_def)

text \<open>
  C7, at the count 0. The collection has one enabled dictionary with the entry
  \<open>KAT\<close> \<open>\<mapsto>\<close> "cat", and "cat" is the one candidate translation. \<open>_multi_reverse_lookup\<close>
  returns one pair, and so do \<open>find_partial\<close> and \<open>find_regex\<close> for a dictionary query
  that proposes "cat": the count is compared only after a pair has been appended.
\<close>

theorem C7_count_zero_returns_one:
  "multi_reverse_lookup (=) lower
     \<lparr>dicts = [run_ops StenoDictionary_init [SetItem [''KAT''] ''cat'']], filters = []\<rparr>
     [''cat''] (Some 0) = [(''cat'', {[''KAT'']})]
   \<and> find_partial (=) lower (\<lambda>r p n. [''cat''])
       \<lparr>dicts = [run_ops StenoDictionary_init [SetItem [''KAT''] ''cat'']], filters = []\<rparr>
       ''ca'' (Some 0) = [(''cat'', {[''KAT'']})]
   \<and> find_regex (=) lower (\<lambda>r p n. [''cat''])
       \<lparr>dicts = [run_ops StenoDictionary_init [SetItem [''KAT''] ''cat'']], filters = []\<rparr>
       ''ca'' (Some 0) = [(''cat'', {[''KAT'']})]"
  by (simp add: find_partial_def find_regex_def multi_reverse_lookup_def coll_eval_defs)

section \<open>Read-only dictionaries\<close>

lemma setitem_readonly: "readonly d \<Longrightarrow> setitem d k v = Inl AssertionError"
  by (simp add: setitem_def)

lemma delitem_readonly: "readonly d \<Longrightarrow> delitem d k = Inl AssertionError"
  by (simp add: delitem_def)

lemma update_readonly: "readonly d \<Longrightarrow> update d kvs = Inl AssertionError"
  by (simp add: update_def)

text \<open>
  C8, at a read-only dictionary that holds the entry \<open>KAT\<close> \<open>\<mapsto>\<close> "cat" (as after
  loading a file that cannot be written): \<open>clear\<close> returns normally, and the entry is
  gone from the forward mapping and from the reverse index.
\<close>

theorem C8_clear_on_readonly:
  "(let d = (run_ops StenoDictionary_init [SetItem [''KAT''] ''cat''])\<lparr>readonly := True\<rparr>
    in readonly d \<and> forward d [''KAT''] = Some ''cat''
       \<and> reverse_lookup d ''cat'' = {[''KAT'']}
       \<and> (\<exists>d'. clear d = Inr d' \<and> forward d' [''KAT''] = None
                 \<and> reverse_lookup d' ''cat'' = {}))"
  by (simp add: clear_def reverse_lookup_def setitem_def StenoDictionary_init_def
      append_key_def)

section \<open>The stand-ins for setdefault, pop and popitem\<close>

text \<open>
  C9, at any StenoDictionary \<open>d\<close> and any SimilarSearchDict \<open>s\<close>: each of \<open>setdefault\<close>,
  \<open>pop\<close> and \<open>popitem\<close> returns normally, handing back the class \<open>NotImplementedError\<close>
  as its value; no exception is raised. The object is left as it was.
\<close>

theorem C9_stand_ins_return:
  "setdefault d k dflt = Inr (NotImplementedError_class, d)
   \<and> pop d k = Inr (NotImplementedError_class, d)
   \<and> popitem d = Inr (NotImplementedError_class, d)
   \<and> ssd_setdefault s k' dflt' = Inr (NotImplementedError_class, s)
   \<and> ssd_pop s k' = Inr (NotImplementedError_class, s)
   \<and> ssd_popitem s = Inr (NotImplementedError_class, s)"
  by (simp add: setdefault_def pop_def popitem_def ssd_setdefault_def ssd_pop_def
      ssd_popitem_def)

section \<open>Deleting an absent key from a SimilarSearchDict\<close>

text \<open>
  C10. For a key that is not in the SimilarSearchDict, \<open>__delitem__\<close> returns normally
  and the object is unchanged: neither the mapping nor the sorted list (nor the sort flag)
  is touched.
\<close>

theorem C10_delitem_absent_noop:
  "k \<notin> dom (ssd_items s) \<Longrightarrow> ssd_delitem s k = Inr s"
  by (simp add: ssd_delitem_def)

theorem C10_delitem_absent_noop_witness:
  "(2::nat) \<notin> dom (ssd_items (ssd_setitem (ssd_init (\<lambda>x::nat. x)) 1 ''one''))
   \<and> ssd_delitem (ssd_setitem (ssd_init (\<lambda>x::nat. x)) 1 ''one'') 2
       = Inr (ssd_setitem (ssd_init (\<lambda>x::nat. x)) 1 ''one'')
   \<and> ssd_list (ssd_setitem (ssd_init (\<lambda>x::nat. x)) 1 ''one'') = [(1, 1)]"
  using C10_delitem_absent_noop [of 2 "ssd_setitem (ssd_init (\<lambda>x::nat. x)) 1 ''one''"]
  by (simp add: ssd_setitem_def ssd_init_def)

section \<open>The similarity index\<close>

lemma bisect_loop_spec:
  assumes mono: "\<And>i j. i \<le> j \<Longrightarrow> j < length a \<Longrightarrow> lt (a ! j) \<Longrightarrow> lt (a ! i)"
  shows "lo \<le> hi \<Longrightarrow> hi \<le> length a \<Longrightarrow> (\<forall>i<lo. lt (a ! i)) \<Longrightarrow>
     (\<forall>i. hi \<le> i \<and> i < length a \<longrightarrow> \<not> lt (a ! i)) \<Longrightarrow>
     bisect_post lt a (bisect_loop lt a lo hi)"
proof (induction "hi - lo" arbitrary: lo hi rule: less_induct)
  case less
  show ?case
  proof (cases "lo < hi")
    case False
    then have "bisect_loop lt a lo hi = lo"
      by (simp add: bisect_loop.simps [of lt a lo hi])
    moreover from False less.prems have "lo = hi" by simp
    ultimately show ?thesis using less.prems by (simp add: bisect_post_def)
  next
    case True
    define mid where "mid = (lo + hi) div 2"
    have mid: "lo \<le> mid" "mid < hi" using True by (auto simp: mid_def)
    show ?thesis
    proof (cases "lt (a ! mid)")
      case lt: True
      have eq: "bisect_loop lt a lo hi = bisect_loop lt a (mid + 1) hi"
        using True lt by (simp add: bisect_loop.simps [of lt a lo hi] mid_def Let_def)
      have below: "\<forall>i<mid + 1. lt (a ! i)"
      proof (intro allI impI)
        fix i assume "i < mid + 1"
        then have "i \<le> mid" by simp
        moreover have "mid < length a" using mid less.prems(2) by simp
        ultimately show "lt (a ! i)" using mono lt by blast
      qed
      have "bisect_post lt a (bisect_loop lt a (mid + 1) hi)"
        using mid less.prems below by (intro less.hyps) auto
      with eq show ?thesis by simp
    next
      case nlt: False
      have eq: "bisect_loop lt a lo hi = bisect_loop lt a lo mid"
        using True nlt by (simp add: bisect_loop.simps [of lt a lo hi] mid_def Let_def)
      have above: "\<forall>i. mid \<le> i \<and> i < length a \<longrightarrow> \<not> lt (a ! i)"
        using mono nlt by blast
      have "bisect_post lt a (bisect_loop lt a lo mid)"
        using mid less.prems above by (intro less.hyps) auto
      with eq show ?thesis by simp
    qed
  qed
qed

lemma bisect_left_spec:
  assumes "\<And>i j. i \<le> j \<Longrightarrow> j < length a \<Longrightarrow> lt (a ! j) \<Longrightarrow> lt (a ! i)"
  shows "bisect_post lt a (bisect_left lt a)"
  unfolding bisect_left_def using assms by (intro bisect_loop_spec) auto

lemma sorted_lt_mono:
  fixes a :: "'a::linorder list"
  assumes "sorted a" "i \<le> j" "j < length a" "a ! j < x"
  shows "a ! i < x"
  using assms sorted_nth_mono [of a i j] by simp

lemma sorted_fst_lt_mono:
  fixes a :: "('s::linorder \<times> 'k::linorder) list"
  assumes "sorted a" "i \<le> j" "j < length a" "fst (a ! j) < x"
  shows "fst (a ! i) < x"
proof -
  have "a ! i \<le> a ! j" using assms sorted_nth_mono [of a i j] by simp
  then have "fst (a ! i) \<le> fst (a ! j)" by (auto simp: less_eq_prod_def)
  with assms(4) show ?thesis by simp
qed

lemma bisect_left_finds:
  fixes a :: "'a::linorder list"
  assumes "sorted a" "x \<in> set a"
  shows "bisect_left (\<lambda>e. e < x) a < length a \<and> a ! bisect_left (\<lambda>e. e < x) a = x"
proof -
  define r where "r = bisect_left (\<lambda>e. e < x) a"
  have post: "bisect_post (\<lambda>e. e < x) a r"
    unfolding r_def using assms(1) by (intro bisect_left_spec) (rule sorted_lt_mono)
  from assms(2) obtain p where p: "p < length a" "a ! p = x"
    by (auto simp: in_set_conv_nth)
  have "r \<le> p"
  proof (rule ccontr)
    assume "\<not> r \<le> p"
    then have "a ! p < x" using post by (simp add: bisect_post_def)
    with p show False by simp
  qed
  with p have rlen: "r < length a" by simp
  have "x \<le> a ! r" using post rlen by (auto simp: bisect_post_def)
  moreover have "a ! r \<le> a ! p" using \<open>r \<le> p\<close> p(1) assms(1) by (rule_tac sorted_nth_mono)
  ultimately have "a ! r = x" using p by simp
  with rlen show ?thesis by (simp add: r_def)
qed

lemma take_drop_remove1:
  "distinct l \<Longrightarrow> i < length l \<Longrightarrow> take i l @ drop (Suc i) l = remove1 (l ! i) l"
proof (induction l arbitrary: i)
  case Nil
  then show ?case by simp
next
  case (Cons x xs)
  then show ?case by (cases i) auto
qed


lemma ssd_inv_init: "ssd_inv (ssd_init f)"
  by (simp add: ssd_inv_def ssd_init_def)

lemma ssd_inv_setitem: "ssd_inv s \<Longrightarrow> ssd_inv (ssd_setitem s k v)"
  by (auto simp: ssd_inv_def ssd_setitem_def Let_def)

lemma simfn_setitem: "simfn (ssd_setitem s k v) = simfn s"
  by (simp add: ssd_setitem_def Let_def)

lemma ssd_delitem_present:
  assumes "ssd_inv s" and "k \<in> dom (ssd_items s)"
  shows "\<exists>s'. ssd_delitem s k = Inr s' \<and> ssd_inv s' \<and> simfn s' = simfn s
           \<and> ssd_items s' = (ssd_items s)(k := None)"
proof -
  define l where "l = (if needs_sorting s then sort (ssd_list s) else ssd_list s)"
  define x where "x = (simfn s k, k)"
  define idx where "idx = bisect_left (\<lambda>e. e < x) l"
  have sl: "sorted l" using assms(1) by (auto simp: l_def ssd_inv_def)
  have dl: "distinct l" using assms(1) by (auto simp: l_def ssd_inv_def)
  have setl: "set l = (\<lambda>k. (simfn s k, k)) ` dom (ssd_items s)"
    using assms(1) by (auto simp: l_def ssd_inv_def)
  have "x \<in> set l" using assms(2) by (simp add: setl x_def)
  with sl have idx: "idx < length l" "l ! idx = x"
    unfolding idx_def by (simp_all add: bisect_left_finds)
  define l' where "l' = take idx l @ drop (Suc idx) l"
  have l': "l' = remove1 x l" using dl idx by (simp add: l'_def take_drop_remove1)
  define s' where "s' = s\<lparr>ssd_items := (ssd_items s)(k := None), ssd_list := l',
     needs_sorting := False\<rparr>"
  have res: "ssd_delitem s k = Inr s'"
    using assms(2) idx
    by (auto simp: ssd_delitem_def Let_def ssd_sort_def s'_def l'_def l_def x_def idx_def
        ssd_inv_def)
  have "set l' = (\<lambda>k. (simfn s k, k)) ` dom ((ssd_items s)(k := None))"
    using dl by (auto simp: l' setl x_def)
  then have "ssd_inv s'"
    using sl dl by (simp add: ssd_inv_def s'_def l' sorted_remove1)
  with res show ?thesis by (auto simp: s'_def)
qed


lemma filter_loop_eq:
  "filter_loop l simkey None (Some (=)) idx keys =
     keys @ map snd (takeWhile (\<lambda>e. fst e = simkey) (drop idx l))"
proof (induction "length l - idx" arbitrary: idx keys rule: less_induct)
  case less
  show ?case
  proof (cases "idx < length l")
    case False
    then show ?thesis by (simp add: filter_loop.simps [of l simkey None "Some (=)" idx keys])
  next
    case True
    then have dr: "drop idx l = l ! idx # drop (Suc idx) l"
      by (simp add: Cons_nth_drop_Suc)
    obtain sk rk where e: "l ! idx = (sk, rk)" by (cases "l ! idx")
    show ?thesis
    proof (cases "sk = simkey")
      case False
      with True e dr show ?thesis
        by (simp add: filter_loop.simps [of l simkey None "Some (=)" idx keys])
    next
      case eq: True
      have "filter_loop l simkey None (Some (=)) (idx + 1) (keys @ [rk]) =
          (keys @ [rk]) @ map snd (takeWhile (\<lambda>e. fst e = simkey) (drop (idx + 1) l))"
        using True by (intro less.hyps) simp
      with True e dr eq show ?thesis
        by (simp add: filter_loop.simps [of l simkey None "Some (=)" idx keys] Let_def)
    qed
  qed
qed

lemma takeWhile_eq_filter_sorted:
  fixes m :: "('s::linorder \<times> 'k) list"
  shows "sorted (map fst m) \<Longrightarrow> \<forall>e \<in> set m. sk \<le> fst e \<Longrightarrow>
     takeWhile (\<lambda>e. fst e = sk) m = filter (\<lambda>e. fst e = sk) m"
proof (induction m)
  case Nil
  then show ?case by simp
next
  case (Cons a m)
  show ?case
  proof (cases "fst a = sk")
    case True
    with Cons show ?thesis by simp
  next
    case False
    with Cons.prems have "sk < fst a" by auto
    with Cons.prems have "\<forall>e \<in> set m. fst e \<noteq> sk" by auto
    then have "filter (\<lambda>e. fst e = sk) m = []" by (simp add: filter_empty_conv)
    with False show ?thesis by simp
  qed
qed

lemma sorted_map_fst:
  fixes l :: "('s::linorder \<times> 'k::linorder) list"
  shows "sorted l \<Longrightarrow> sorted (map fst l)"
  by (induction l) (auto simp: less_eq_prod_def)

lemma similar_scan_set:
  fixes l :: "('s::linorder \<times> 'k::linorder) list"
  assumes "sorted l"
  shows "set (takeWhile (\<lambda>e. fst e = sk) (drop (bisect_left (\<lambda>e. fst e < sk) l) l))
           = {e \<in> set l. fst e = sk}"
proof -
  define r where "r = bisect_left (\<lambda>e. fst e < sk) l"
  have post: "bisect_post (\<lambda>e. fst e < sk) l r"
    unfolding r_def using assms by (intro bisect_left_spec) (rule sorted_fst_lt_mono)
  have lo: "\<forall>e \<in> set (take r l). fst e \<noteq> sk"
  proof
    fix e assume "e \<in> set (take r l)"
    then obtain i where "i < r" "i < length l" "e = l ! i"
      by (auto simp: in_set_conv_nth)
    with post show "fst e \<noteq> sk" by (auto simp: bisect_post_def)
  qed
  have hi: "\<forall>e \<in> set (drop r l). sk \<le> fst e"
  proof
    fix e assume "e \<in> set (drop r l)"
    then obtain i where "i < length l - r" "e = l ! (r + i)"
      by (auto simp: in_set_conv_nth)
    with post show "sk \<le> fst e" by (auto simp: bisect_post_def not_less)
  qed
  have "sorted (map fst (drop r l))"
    using assms by (simp add: sorted_map_fst sorted_wrt_drop)
  then have "takeWhile (\<lambda>e. fst e = sk) (drop r l) = filter (\<lambda>e. fst e = sk) (drop r l)"
    using hi by (rule takeWhile_eq_filter_sorted)
  moreover have "set l = set (take r l) \<union> set (drop r l)"
    by (metis append_take_drop_id set_append)
  ultimately show ?thesis using lo unfolding r_def [symmetric] by auto
qed

lemma get_similar_keys_exact:
  assumes "ssd_inv s"
  shows "set (fst (get_similar_keys s k None)) =
           {k' \<in> dom (ssd_items s). simfn s k' = simfn s k}"
    and "distinct (fst (get_similar_keys s k None))"
proof -
  define l where "l = (if needs_sorting s then sort (ssd_list s) else ssd_list s)"
  have sl: "sorted l" using assms by (auto simp: l_def ssd_inv_def)
  have dl: "distinct l" using assms by (auto simp: l_def ssd_inv_def)
  have setl: "set l = (\<lambda>k. (simfn s k, k)) ` dom (ssd_items s)"
    using assms by (auto simp: l_def ssd_inv_def)
  have res: "fst (get_similar_keys s k None) =
      map snd (takeWhile (\<lambda>e. fst e = simfn s k)
        (drop (bisect_left (\<lambda>e. fst e < simfn s k) l) l))"
    by (simp add: get_similar_keys_def filter_keys_def index_left_def Let_def ssd_sort_def
        filter_loop_eq l_def)
  show "set (fst (get_similar_keys s k None)) =
           {k' \<in> dom (ssd_items s). simfn s k' = simfn s k}"
    unfolding res set_map similar_scan_set [OF sl] setl by force
  have "inj_on snd (set l)" unfolding setl by (auto simp: inj_on_def)
  then have "distinct (map snd l)" using dl by (simp add: distinct_map)
  then have "distinct (map snd (drop (bisect_left (\<lambda>e. fst e < simfn s k) l) l))"
    by (metis append_take_drop_id distinct_append map_append)
  then show "distinct (fst (get_similar_keys s k None))"
    unfolding res by (metis distinct_append map_append takeWhile_dropWhile_id)
qed

lemma ssd_run_inv:
  "ssd_inv s \<Longrightarrow> \<exists>s'. ssd_run s ops = Inr s' \<and> ssd_inv s' \<and> simfn s' = simfn s"
proof (induction ops arbitrary: s)
  case Nil
  then show ?case by simp
next
  case (Cons x ops)
  have "\<exists>s1. ssd_apply s x = Inr s1 \<and> ssd_inv s1 \<and> simfn s1 = simfn s"
  proof (cases x)
    case (SsdSet k v)
    with Cons.prems show ?thesis by (simp add: ssd_inv_setitem simfn_setitem)
  next
    case (SsdDel k)
    show ?thesis
    proof (cases "k \<in> dom (ssd_items s)")
      case True
      with Cons.prems SsdDel show ?thesis using ssd_delitem_present [of s k] by auto
    next
      case False
      with Cons.prems SsdDel show ?thesis by (simp add: ssd_delitem_def)
    qed
  qed
  then obtain s1 where s1: "ssd_apply s x = Inr s1" "ssd_inv s1" "simfn s1 = simfn s" by blast
  from Cons.IH [OF s1(2)] s1 show ?case by auto
qed

text \<open>
  C6. Every finite sequence of \<open>__setitem__\<close> and \<open>__delitem__\<close> calls on a new
  SimilarSearchDict with similarity function \<open>f\<close> runs without raising, and on the
  resulting object \<open>get_similar_keys(k)\<close> with no count returns, for every key \<open>k\<close>,
  exactly the keys now present whose image under \<open>f\<close> equals that of \<open>k\<close>, each of
  them once.
\<close>

theorem C6_similar_keys_exact:
  "\<exists>s. ssd_run (ssd_init f) ops = Inr s \<and>
     (\<forall>k. set (fst (get_similar_keys s k None)) = {k' \<in> dom (ssd_items s). f k' = f k}
        \<and> distinct (fst (get_similar_keys s k None)))"
proof -
  from ssd_run_inv [OF ssd_inv_init, of f ops]
  obtain s where s: "ssd_run (ssd_init f) ops = Inr s" "ssd_inv s" "simfn s = f"
    by (auto simp: ssd_init_def)
  with get_similar_keys_exact [OF s(2)] show ?thesis by auto
qed


text \<open>
  The count of \<open>filter_keys\<close> is compared after a key has been appended, so a count
  of 0 still yields one key.
\<close>

lemma filter_keys_count_zero:
  "fst (filter_keys (ssd_setitem (ssd_init (\<lambda>x::nat. x)) 1 ''one'') 1 (Some 0) None) = [1]"
  by (simp add: filter_keys_def index_left_def ssd_setitem_def ssd_init_def ssd_sort_def
      bisect_left_def bisect_loop.simps filter_loop.simps Let_def)

section \<open>Normalising a stroke twice\<close>

lemma str_remove_single: "str_remove [c] s = filter (\<lambda>x. x \<noteq> c) s"
  by (induction s) auto

lemma stroke1_filter:
  "(if (\<exists>c \<in> set s. [c] = nk) then str_remove nk s else s) = filter (\<lambda>c. [c] \<noteq> nk) s"
proof (cases "\<exists>c \<in> set s. [c] = nk")
  case True
  then obtain c where "nk = [c]" by auto
  with True show ?thesis by (simp add: str_remove_single)
next
  case False
  then have "filter (\<lambda>c. [c] \<noteq> nk) s = s" by (auto simp: filter_id_conv)
  with False show ?thesis by simp
qed

lemma normalize_stroke_alt:
  "normalize_stroke sys s =
     (if set s \<inter> NUMBERS \<noteq> {} then
        (case IMPLICIT_NUMBER_RX_search (filter (\<lambda>c. [c] \<noteq> NUMBER_KEY sys) s) of
           Some p \<Rightarrow> take p (filter (\<lambda>c. [c] \<noteq> NUMBER_KEY sys) s) @ ''-'' @
                     drop p (filter (\<lambda>c. [c] \<noteq> NUMBER_KEY sys) s)
         | None \<Rightarrow> normalize_hyphen sys (set s) (filter (\<lambda>c. [c] \<noteq> NUMBER_KEY sys) s))
      else normalize_hyphen sys (set s) s)"
  unfolding normalize_stroke_def Let_def stroke1_filter ..

lemma rx_pair_no_left: "set y \<inter> set ''1234'' = {} \<Longrightarrow> rx_pair y = None"
  by (induction y rule: rx_pair.induct) auto

lemma rx_pair_no_right: "set y \<inter> set ''6789'' = {} \<Longrightarrow> rx_pair y = None"
  by (induction y rule: rx_pair.induct) auto

lemma search_no_right: "set y \<inter> set ''6789'' = {} \<Longrightarrow> IMPLICIT_NUMBER_RX_search y = None"
  by (cases y) (auto simp: IMPLICIT_NUMBER_RX_search_def rx_pair_no_right simp del: rx_pair.simps)

lemma rx_pair_Some: "rx_pair y = Some p \<Longrightarrow> 0 < p \<and> p < length y \<and> y ! p \<in> set ''6789''"
  by (induction y arbitrary: p rule: rx_pair.induct) (auto split: if_splits)

lemma search_Some:
  "IMPLICIT_NUMBER_RX_search y = Some p \<Longrightarrow> p < length y \<and> y ! p \<in> set ''6789''"
  by (cases y) (auto simp: IMPLICIT_NUMBER_RX_search_def simp del: rx_pair.simps
      split: if_splits dest: rx_pair_Some)

lemma rx_pair_take: "rx_pair y = Some p \<Longrightarrow> rx_pair (take p y) = None"
proof (induction y arbitrary: p rule: rx_pair.induct)
  case (1 a b cs)
  show ?case
  proof (cases "a \<in> set ''1234'' \<and> b \<in> set ''6789''")
    case True
    with 1 show ?thesis by auto
  next
    case False
    with "1.prems" obtain q where q: "rx_pair (b # cs) = Some q" "p = Suc q" by auto
    then have "0 < q" by (auto dest: rx_pair_Some)
    then obtain q' where q': "q = Suc q'" by (cases q) auto
    from "1.IH" [OF False q(1)] have "rx_pair (take q (b # cs)) = None" .
    with False q q' show ?thesis by simp
  qed
qed auto

lemma rx_pair_hyphen_Nil: "rx_pair w = None \<Longrightarrow> rx_pair (CHR ''-'' # w) = None"
  by (cases w) auto

lemma rx_pair_hyphen_single:
  "rx_pair w = None \<Longrightarrow> rx_pair (v # CHR ''-'' # w) = None"
  by (simp add: rx_pair_hyphen_Nil del: rx_pair.simps(2,3))

lemma rx_pair_hyphen:
  "rx_pair u = None \<Longrightarrow> rx_pair w = None \<Longrightarrow> rx_pair (u @ CHR ''-'' # w) = None"
proof (induction u rule: rx_pair.induct)
  case (1 a b cs)
  then show ?case by (auto split: if_splits)
qed (simp_all add: rx_pair_hyphen_Nil rx_pair_hyphen_single del: rx_pair.simps)

lemma set_drop_dropWhile:
  "p < length x \<Longrightarrow> \<not> P (x ! p) \<Longrightarrow> set (drop p x) \<subseteq> set (dropWhile P x)"
proof (induction x arbitrary: p)
  case Nil
  then show ?case by simp
next
  case (Cons a x)
  show ?case
  proof (cases p)
    case 0
    with Cons.prems show ?thesis by simp
  next
    case (Suc q)
    with Cons.prems Cons.IH [of q] show ?thesis
      by (auto dest: in_set_dropD)
  qed
qed

lemma search_after_insert:
  assumes "IMPLICIT_NUMBER_RX_search x = Some p"
    and "set (dropWhile (\<lambda>c. c \<notin> set ''6789'') x) \<inter> set ''1234'' = {}"
  shows "IMPLICIT_NUMBER_RX_search (take p x @ ''-'' @ drop p x) = None"
proof -
  from assms(1) have p: "p < length x" "x ! p \<in> set ''6789''"
    by (auto dest: search_Some)
  then have "set (drop p x) \<subseteq> set (dropWhile (\<lambda>c. c \<notin> set ''6789'') x)"
    by (intro set_drop_dropWhile) auto
  with assms(2) have "set (drop p x) \<inter> set ''1234'' = {}" by blast
  then have w: "rx_pair (drop p x) = None" by (rule rx_pair_no_left)
  from p obtain c cs where x: "x = c # cs" by (cases x) auto
  show ?thesis
  proof (cases "c \<in> set ''6789''")
    case True
    with assms(1) x have "p = 0" by (simp add: IMPLICIT_NUMBER_RX_search_def)
    have "rx_pair [] = None" by simp
    then have "rx_pair ([] @ CHR ''-'' # drop p x) = None" using w by (rule rx_pair_hyphen)
    with \<open>p = 0\<close> show ?thesis
      by (simp add: IMPLICIT_NUMBER_RX_search_def del: rx_pair.simps)
  next
    case False
    with assms(1) x have rp: "rx_pair x = Some p" by (simp add: IMPLICIT_NUMBER_RX_search_def)
    then have "0 < p" by (auto dest: rx_pair_Some)
    then obtain q where q: "p = Suc q" by (cases p) auto
    from rp have "rx_pair (take p x) = None" by (rule rx_pair_take)
    then have "rx_pair (take p x @ CHR ''-'' # drop p x) = None" using w by (rule rx_pair_hyphen)
    with False x q show ?thesis
      by (simp add: IMPLICIT_NUMBER_RX_search_def del: rx_pair.simps)
  qed
qed


lemma normalize_hyphen_subset: "set (normalize_hyphen sys L x) \<subseteq> set x"
  by (auto simp: normalize_hyphen_def str_remove_single dest: in_set_butlastD)

lemma normalize_hyphen_id:
  "x = [] \<or> last x \<noteq> CHR ''-'' \<Longrightarrow> \<forall>c \<in> L. [c] \<notin> IMPLICIT_HYPHENS sys \<Longrightarrow>
   normalize_hyphen sys L x = x"
  by (auto simp: normalize_hyphen_def)

lemma last_filter_keep:
  "xs \<noteq> [] \<Longrightarrow> P (last xs) \<Longrightarrow> filter P xs \<noteq> [] \<and> last (filter P xs) = last xs"
  by (induction xs) (auto split: if_splits)

lemma count_filter_le:
  "length (filter P (filter F s)) \<le> length (filter P s)"
  by (induction s) auto

lemma butlast_no_hyphen:
  assumes "x \<noteq> []" "last x = CHR ''-''" "length (filter (\<lambda>c. c = CHR ''-'') x) \<le> 1"
  shows "CHR ''-'' \<notin> set (butlast x)"
proof -
  define y where "y = butlast x"
  have "x = y @ [CHR ''-'']" using assms(1,2) unfolding y_def by (metis append_butlast_last_id)
  with assms(3) have "filter (\<lambda>c. c = CHR ''-'') y = []" by simp
  then show ?thesis unfolding y_def by (auto simp: filter_empty_conv)
qed

lemma normalize_hyphen_idem:
  assumes "set x \<subseteq> L" and "length (filter (\<lambda>c. c = CHR ''-'') x) \<le> 1"
  shows "normalize_hyphen sys (set (normalize_hyphen sys L x)) (normalize_hyphen sys L x)
           = normalize_hyphen sys L x"
proof (cases "CHR ''-'' \<in> L")
  case False
  with assms(1) have "CHR ''-'' \<notin> set x" by auto
  with False show ?thesis by (simp add: normalize_hyphen_def)
next
  case hy: True
  show ?thesis
  proof (cases "x \<noteq> [] \<and> last x = CHR ''-''")
    case True
    then have r: "normalize_hyphen sys L x = butlast x" using hy by (simp add: normalize_hyphen_def)
    have "CHR ''-'' \<notin> set (butlast x)" using True assms(2) by (simp add: butlast_no_hyphen)
    then show ?thesis unfolding r by (simp add: normalize_hyphen_def)
  next
    case ne: False
    show ?thesis
    proof (cases "\<exists>c \<in> L. [c] \<in> IMPLICIT_HYPHENS sys")
      case True
      with hy ne have r: "normalize_hyphen sys L x = filter (\<lambda>c. c \<noteq> CHR ''-'') x"
        by (auto simp: normalize_hyphen_def str_remove_single)
      show ?thesis unfolding r by (simp add: normalize_hyphen_def)
    next
      case False
      with hy ne have r: "normalize_hyphen sys L x = x" by (auto simp: normalize_hyphen_def)
      from False assms(1) have "\<forall>c \<in> set x. [c] \<notin> IMPLICIT_HYPHENS sys" by auto
      with ne show ?thesis unfolding r by (intro normalize_hyphen_id) auto
    qed
  qed
qed

lemma idem_no_right_digits:
  assumes "length (filter (\<lambda>c. c = CHR ''-'') s) \<le> 1" and "set s \<inter> set ''6789'' = {}"
  shows "normalize_stroke sys (normalize_stroke sys s) = normalize_stroke sys s"
proof -
  let ?F = "\<lambda>c. [c] \<noteq> NUMBER_KEY sys"
  define s1 where "s1 = (if set s \<inter> NUMBERS \<noteq> {} then filter ?F s else s)"
  define r where "r = normalize_hyphen sys (set s) s1"
  have s1s: "set s1 \<subseteq> set s" by (auto simp: s1_def)
  have "IMPLICIT_NUMBER_RX_search (filter ?F s) = None"
    using assms(2) by (intro search_no_right) auto
  then have Ns: "normalize_stroke sys s = r"
    by (simp add: normalize_stroke_alt r_def s1_def)
  have rs1: "set r \<subseteq> set s1" unfolding r_def by (rule normalize_hyphen_subset)
  have cnt: "length (filter (\<lambda>c. c = CHR ''-'') s1) \<le> 1"
    using assms(1) count_filter_le [of "\<lambda>c. c = CHR ''-''" ?F s] by (simp add: s1_def)
  have fixr: "normalize_hyphen sys (set r) r = r"
    unfolding r_def using s1s cnt by (rule normalize_hyphen_idem)
  have nr: "IMPLICIT_NUMBER_RX_search (filter ?F r) = None"
    using assms(2) rs1 s1s by (intro search_no_right) auto
  have "normalize_stroke sys r = r"
  proof (cases "set r \<inter> NUMBERS \<noteq> {}")
    case True
    with rs1 s1s have "set s \<inter> NUMBERS \<noteq> {}" by blast
    then have "s1 = filter ?F s" by (simp add: s1_def)
    with rs1 have "filter ?F r = r" by (auto simp: filter_id_conv)
    with True nr fixr show ?thesis by (simp add: normalize_stroke_alt)
  next
    case False
    with fixr show ?thesis by (simp add: normalize_stroke_alt)
  qed
  with Ns show ?thesis by simp
qed

lemma dropWhile_filter_subset: "set (dropWhile Q (filter F s)) \<subseteq> set (dropWhile Q s)"
proof (induction s)
  case Nil
  then show ?case by simp
next
  case (Cons a s)
  have "set (dropWhile Q s) \<subseteq> set s" by (auto dest: set_dropWhileD)
  with Cons show ?case by auto
qed

lemma idem_plain_digits:
  assumes nk: "NUMBER_KEY sys \<noteq> ''-''" and ih: "''-'' \<notin> IMPLICIT_HYPHENS sys"
    and tail: "filter (\<lambda>c. [c] \<noteq> NUMBER_KEY sys) s = []
               \<or> last (filter (\<lambda>c. [c] \<noteq> NUMBER_KEY sys) s) \<noteq> CHR ''-''"
    and noih: "\<forall>c \<in> set s. [c] \<notin> IMPLICIT_HYPHENS sys"
    and lbr: "set (dropWhile (\<lambda>c. c \<notin> set ''6789'') s) \<inter> set ''1234'' = {}"
  shows "normalize_stroke sys (normalize_stroke sys s) = normalize_stroke sys s"
proof -
  let ?F = "\<lambda>c. [c] \<noteq> NUMBER_KEY sys"
  define s1 where "s1 = filter ?F s"
  have s1s: "set s1 \<subseteq> set s" by (auto simp: s1_def)
  have Fs1: "filter ?F s1 = s1" by (simp add: s1_def)
  have tail1: "s1 = [] \<or> last s1 \<noteq> CHR ''-''" using tail by (simp add: s1_def)
  have tails: "s = [] \<or> last s \<noteq> CHR ''-''"
  proof (rule ccontr)
    assume "\<not> (s = [] \<or> last s \<noteq> CHR ''-'')"
    then have "s \<noteq> []" "last s = CHR ''-''" by auto
    moreover from this nk have "?F (last s)" by simp
    ultimately have "last s1 = CHR ''-''" "s1 \<noteq> []"
      unfolding s1_def using last_filter_keep [of s ?F] by simp_all
    with tail1 show False by simp
  qed
  have noih1: "\<forall>c \<in> set s1. [c] \<notin> IMPLICIT_HYPHENS sys" using noih s1s by auto
  have fix1: "normalize_hyphen sys (set s1) s1 = s1"
    using tail1 noih1 by (rule normalize_hyphen_id)
  show ?thesis
  proof (cases "set s \<inter> NUMBERS \<noteq> {}")
    case False
    then have "normalize_stroke sys s = normalize_hyphen sys (set s) s"
      by (simp add: normalize_stroke_alt)
    also have "\<dots> = s" using tails noih by (rule normalize_hyphen_id)
    finally show ?thesis by simp
  next
    case dig: True
    show ?thesis
    proof (cases "IMPLICIT_NUMBER_RX_search s1")
      case None
      have "normalize_hyphen sys (set s) s1 = s1" using tail1 noih by (rule normalize_hyphen_id)
      with dig None have Ns: "normalize_stroke sys s = s1"
        by (simp add: normalize_stroke_alt s1_def)
      have "normalize_stroke sys s1 = s1"
        using None fix1 Fs1 by (simp add: normalize_stroke_alt)
      with Ns show ?thesis by simp
    next
      case (Some p)
      define r where "r = take p s1 @ ''-'' @ drop p s1"
      from dig Some have Ns: "normalize_stroke sys s = r"
        by (simp add: normalize_stroke_alt s1_def r_def)
      from Some have p: "p < length s1" "s1 ! p \<in> set ''6789''" by (auto dest: search_Some)
      have "set (take p s1) \<union> set (drop p s1) = set s1"
        by (metis append_take_drop_id set_append)
      then have setr: "set r = insert CHR ''-'' (set s1)"
        unfolding r_def by auto
      have "s1 ! p \<in> set r" using p setr by simp
      moreover have "s1 ! p \<in> NUMBERS" using p(2) by (auto simp: NUMBERS_def)
      ultimately have digr: "set r \<inter> NUMBERS \<noteq> {}" by blast
      have "\<forall>c \<in> set s1. ?F c" by (simp add: s1_def)
      with nk setr have "\<forall>c \<in> set r. ?F c" by simp
      then have Fr: "filter ?F r = r" by (simp add: filter_id_conv)
      have "set (dropWhile (\<lambda>c. c \<notin> set ''6789'') s1) \<inter> set ''1234'' = {}"
        using lbr dropWhile_filter_subset [of "\<lambda>c. c \<notin> set ''6789''" ?F s]
        unfolding s1_def by blast
      with Some have nr: "IMPLICIT_NUMBER_RX_search r = None"
        unfolding r_def by (rule search_after_insert)
      have "last r = last s1" using p(1) by (simp add: r_def)
      moreover have "s1 \<noteq> []" using p(1) by auto
      ultimately have tailr: "r = [] \<or> last r \<noteq> CHR ''-''" using tail1 by simp
      have "\<forall>c \<in> set r. [c] \<notin> IMPLICIT_HYPHENS sys" using noih1 ih setr by auto
      with tailr have "normalize_hyphen sys (set r) r = r" by (rule normalize_hyphen_id)
      with digr Fr nr have "normalize_stroke sys r = r" by (simp add: normalize_stroke_alt)
      with Ns show ?thesis by simp
    qed
  qed
qed


lemma trailing_hyphens_any_system:
  "normalize_stroke sys ''S--'' = ''S-''" "normalize_stroke sys ''S-'' = ''S''"
  by (simp_all add: normalize_stroke_def normalize_hyphen_def NUMBERS_def)

text \<open>
  C4, as stated, at the string \<open>S--\<close>: normalising once gives \<open>S-\<close>, normalising the
  result gives \<open>S\<close>. (This holds for every layout; see \<open>trailing_hyphens_any_system\<close>.)
\<close>

theorem C4_counterexample:
  "normalize_stroke example_system (normalize_stroke example_system ''S--'')
     \<noteq> normalize_stroke example_system ''S--''"
  by (simp add: normalize_stroke_def normalize_hyphen_def NUMBERS_def)

text \<open>
  Strokes with the digits 6 to 9 can change again as well: the branch that inserts the
  hyphen returns at once, so a trailing hyphen is dropped only by a second call, a second
  implicit position is only found by a second call, and with an implicit-hyphen letter
  the two branches undo each other.
\<close>

lemma number_strokes_not_idempotent:
  "normalize_stroke example_system ''6-'' = ''-6-''"
  "normalize_stroke example_system ''-6-'' = ''-6''"
  "normalize_stroke example_system ''1616'' = ''1-616''"
  "normalize_stroke example_system ''1-616'' = ''1-61-6''"
  "normalize_stroke example_system ''6E'' = ''-6E''"
  "normalize_stroke example_system ''-6E'' = ''6E''"
  by (simp_all add: normalize_stroke_def normalize_hyphen_def NUMBERS_def example_system_def
      IMPLICIT_NUMBER_RX_search_def)

text \<open>
  C4, amended. \<open>normalize_stroke(normalize_stroke(s)) = normalize_stroke(s)\<close> for every
  string \<open>s\<close> that has at most one hyphen and none of the digits 6 to 9; and also for
  every string \<open>s\<close> that, with the number key taken out, does not end in a hyphen,
  contains no implicit-hyphen letter and has none of the digits 1 to 4 after one of the
  digits 6 to 9, when the layout's number key is not the hyphen and the hyphen is not one
  of its implicit-hyphen letters.
\<close>

theorem C4_normalize_stroke_idempotent_on:
  assumes "(length (filter (\<lambda>c. c = CHR ''-'') s) \<le> 1 \<and> set s \<inter> set ''6789'' = {})
     \<or> (NUMBER_KEY sys \<noteq> ''-'' \<and> ''-'' \<notin> IMPLICIT_HYPHENS sys
        \<and> (filter (\<lambda>c. [c] \<noteq> NUMBER_KEY sys) s = []
             \<or> last (filter (\<lambda>c. [c] \<noteq> NUMBER_KEY sys) s) \<noteq> CHR ''-'')
        \<and> (\<forall>c \<in> set s. [c] \<notin> IMPLICIT_HYPHENS sys)
        \<and> set (dropWhile (\<lambda>c. c \<notin> set ''6789'') s) \<inter> set ''1234'' = {})"
  shows "normalize_stroke sys (normalize_stroke sys s) = normalize_stroke sys s"
  using assms idem_no_right_digits [of s sys] idem_plain_digits [of sys s] by blast

theorem C4_normalize_stroke_idempotent_on_witness:
  "normalize_stroke example_system ''#129'' = ''12-9''
   \<and> normalize_stroke example_system (normalize_stroke example_system ''#129'')
       = normalize_stroke example_system ''#129''
   \<and> normalize_stroke example_system ''SA-T'' = ''SAT''
   \<and> normalize_stroke example_system (normalize_stroke example_system ''SA-T'')
       = normalize_stroke example_system ''SA-T''"
proof -
  have a: "normalize_stroke example_system ''#129'' = ''12-9''"
    by (simp add: normalize_stroke_def normalize_hyphen_def NUMBERS_def example_system_def
        IMPLICIT_NUMBER_RX_search_def)
  have b: "normalize_stroke example_system ''SA-T'' = ''SAT''"
    by (simp add: normalize_stroke_def normalize_hyphen_def NUMBERS_def example_system_def)
  have c: "normalize_stroke example_system (normalize_stroke example_system ''#129'')
       = normalize_stroke example_system ''#129''"
    by (rule C4_normalize_stroke_idempotent_on) (simp add: example_system_def)
  have d: "normalize_stroke example_system (normalize_stroke example_system ''SA-T'')
       = normalize_stroke example_system ''SA-T''"
    by (rule C4_normalize_stroke_idempotent_on) simp
  from a b c d show ?thesis by blast
qed


end
